theory Spec2Isabelle
  imports Main "HOL-Library.AList"
begin

section \<open>Data model\<close>

text \<open>
  The coalescer lists the objects of a bucket, parses each object key into stream
  metadata, groups the parsed records per topic and partition, cuts every group into
  batches and runs coalesce and delete for each batch.

  A listing entry is the dictionary with the entries \<open>'Key'\<close> and \<open>'Size'\<close> that the
  object listing returns. A parsed record is the dictionary built in
  \<open>grouped_object_summaries\<close>; its entries \<open>'partition'\<close> and \<open>'size'\<close> are the
  fields \<open>partition_no\<close> and \<open>obj_size\<close> here. Python integers are unbounded, hence
  \<open>int\<close>. A key is a sequence of code points below 256.
\<close>

record summary =
  Key :: string
  Size :: int

record stream_record =
  object_key :: string
  topic :: string
  partition_no :: int
  start_offset :: int
  end_offset :: int
  obj_size :: int

text \<open>
  Python dictionaries keep insertion order, so the two nested dictionaries
  \<open>grouped[topic][partition]\<close> are association lists; \<open>map_of\<close> is the lookup.
\<close>

type_synonym 'v by_partition = "(int \<times> 'v) list"
type_synonym 'v by_topic = "(string \<times> 'v by_partition) list"

definition lookup2 :: "'v by_topic \<Rightarrow> string \<Rightarrow> int \<Rightarrow> 'v option" where
  "lookup2 d t p = (case map_of d t of None \<Rightarrow> None | Some ps \<Rightarrow> map_of ps p)"

text \<open>An association list is a dictionary when no key occurs twice, at either level.\<close>

definition keys_distinct :: "'v by_topic \<Rightarrow> bool" where
  "keys_distinct d \<longleftrightarrow>
     distinct (map fst d) \<and> list_all (\<lambda>entry. distinct (map fst (snd entry))) d"

section \<open>KeyParser: the regular expression of \<open>grouped_object_summaries\<close>\<close>

text \<open>
  The pattern is \<^verbatim>\<open>/([.\w]+)_(\d+)_(\d+)-(\d+)\.jsonl\.gz$\<close>. For a Python \<open>str\<close> pattern
  \<^verbatim>\<open>\d\<close> is a decimal digit and \<^verbatim>\<open>\w\<close> is an alphanumeric character or the underscore;
  below code point 256 the decimal digits are \<open>0\<close> to \<open>9\<close>, and the alphanumeric
  characters are the ASCII letters and digits and the Latin-1 letters and numerics listed
  in \<open>is_alnum\<close>.
\<close>

definition is_digit :: "char \<Rightarrow> bool" where
  "is_digit c \<longleftrightarrow> (48::nat) \<le> of_char c \<and> (of_char c :: nat) \<le> 57"

definition is_alnum :: "char \<Rightarrow> bool" where
  "is_alnum c \<longleftrightarrow>
     (let n = (of_char c :: nat)
      in (48 \<le> n \<and> n \<le> 57) \<or> (65 \<le> n \<and> n \<le> 90) \<or> (97 \<le> n \<and> n \<le> 122) \<or>
         n = 170 \<or> n = 178 \<or> n = 179 \<or> n = 181 \<or> n = 185 \<or> n = 186 \<or>
         (188 \<le> n \<and> n \<le> 190) \<or> (192 \<le> n \<and> n \<le> 214) \<or>
         (216 \<le> n \<and> n \<le> 246) \<or> 248 \<le> n)"

definition is_word :: "char \<Rightarrow> bool" where
  "is_word c \<longleftrightarrow> is_alnum c \<or> c = CHR ''_''"

definition is_topic_char :: "char \<Rightarrow> bool" where
  "is_topic_char c \<longleftrightarrow> c = CHR ''.'' \<or> is_word c"

text \<open>
  A backtracking matcher in continuation style: a matcher takes the rest of the subject
  and gives the result of the first way to match that the rest of the pattern (the
  continuation) accepts. \<open>lit\<close> matches one character, \<open>plus_group\<close> a capturing group
  \<^verbatim>\<open>(C+)\<close> for a character class \<open>C\<close>: greedy, so the longest run is tried first and
  one character is given back at a time, down to a run of one. \<open>dollar\<close> is \<^verbatim>\<open>$\<close>
  without the MULTILINE flag: the end of the subject, or just before a newline that ends
  the subject.
\<close>

type_synonym 'a matcher = "string \<Rightarrow> 'a option"

definition lit :: "char \<Rightarrow> 'a matcher \<Rightarrow> 'a matcher" where
  "lit c k s = (case s of [] \<Rightarrow> None | x # xs \<Rightarrow> if x = c then k xs else None)"

primrec lits :: "string \<Rightarrow> 'a matcher \<Rightarrow> 'a matcher" where
  "lits [] k = k"
| "lits (c # cs) k = lit c (lits cs k)"

primrec greedy_try :: "nat \<Rightarrow> (string \<Rightarrow> 'a matcher) \<Rightarrow> 'a matcher" where
  "greedy_try 0 k s = None"
| "greedy_try (Suc n) k s =
     (case k (take (Suc n) s) (drop (Suc n) s) of
        Some r \<Rightarrow> Some r
      | None \<Rightarrow> greedy_try n k s)"

definition plus_group :: "(char \<Rightarrow> bool) \<Rightarrow> (string \<Rightarrow> 'a matcher) \<Rightarrow> 'a matcher" where
  "plus_group C k s = greedy_try (length (takeWhile C s)) k s"

definition dollar :: "'a matcher \<Rightarrow> 'a matcher" where
  "dollar k s = (if s = [] \<or> s = [CHR 0x0A] then k s else None)"

type_synonym groups = "string \<times> string \<times> string \<times> string"

text \<open>
  One match attempt at the start of the subject: the four groups and the part of the
  subject after the match.
\<close>

definition filename_re :: "string \<Rightarrow> (groups \<times> string) option" where
  "filename_re =
     lit CHR ''/'' (plus_group is_topic_char (\<lambda>topic.
     lit CHR ''_'' (plus_group is_digit (\<lambda>partition.
     lit CHR ''_'' (plus_group is_digit (\<lambda>start.
     lit CHR ''-'' (plus_group is_digit (\<lambda>end.
     lits ''.jsonl.gz'' (dollar (\<lambda>rest.
     Some ((topic, partition, start, end), rest)))))))))))"

text \<open>
  \<open>findall\<close> scans the subject from left to right: where an attempt matches, the groups
  are recorded and the scan goes on after the match; where it fails, the scan moves one
  character on. The attempt at the end of the subject is made too.
\<close>

fun findall :: "string \<Rightarrow> groups list" where
  "findall s =
     (case filename_re s of
        Some (g, rest) \<Rightarrow> g # (if length rest < length s then findall rest else [])
      | None \<Rightarrow> (case s of [] \<Rightarrow> [] | _ # xs \<Rightarrow> findall xs))"

declare findall.simps [simp del]

text \<open>
  The naming grammar in the words of the spec, to compare the pattern with: a name is
  \<^verbatim>\<open>/<stream_id>_<partition>_<start_offset>-<end_offset>.jsonl.gz\<close>, where the stream
  id is a non-empty string of word characters and dots and the three numbers are
  non-empty strings of decimal digits. A key matches the grammar when it ends with such
  a name. \<open>line_end\<close> is what \<^verbatim>\<open>$\<close> lets follow a name: nothing, or one newline; a key
  that ends with a name and one newline does not match the grammar.
\<close>

definition grammar_fields :: "groups \<Rightarrow> bool" where
  "grammar_fields g \<longleftrightarrow>
     (case g of (t, p, s, e) \<Rightarrow>
        t \<noteq> [] \<and> list_all is_topic_char t \<and>
        p \<noteq> [] \<and> list_all is_digit p \<and>
        s \<noteq> [] \<and> list_all is_digit s \<and>
        e \<noteq> [] \<and> list_all is_digit e)"

definition grammar_name :: "groups \<Rightarrow> string" where
  "grammar_name g =
     (case g of (t, p, s, e) \<Rightarrow>
        CHR ''/'' # t @ CHR ''_'' # p @ CHR ''_'' # s @ CHR ''-'' # e @ ''.jsonl.gz'')"

definition line_end :: "string \<Rightarrow> bool" where
  "line_end rest \<longleftrightarrow> rest = [] \<or> rest = [CHR 0x0A]"



text \<open>
  \<open>int(s)\<close> for a string of the digits \<open>0\<close> to \<open>9\<close>: its decimal value, for a
  string of any length. (From version 3.11 on \<open>int\<close> refuses a string of more than 4300
  digits; the keys of an object store are shorter than that.)
\<close>

definition digit_value :: "char \<Rightarrow> int" where
  "digit_value c = int (of_char c) - 48"

definition int_of_digits :: "string \<Rightarrow> int" where
  "int_of_digits s = foldl (\<lambda>n c. 10 * n + digit_value c) 0 s"

text \<open>
  The body of the first loop for one listing entry, up to the record that is appended:
  \<open>None\<close> when the \<open>if\<close> is not taken.
\<close>

definition summary_record :: "summary \<Rightarrow> stream_record option" where
  "summary_record summary =
     (let object_key = Key summary;
          match = findall object_key
      in if match \<noteq> [] \<and> length match = 1
         then (case findall object_key ! 0 of
                 (topic_g, partition_g, start_g, end_g) \<Rightarrow>
                   Some \<lparr>object_key = object_key, topic = topic_g,
                         partition_no = int_of_digits partition_g,
                         start_offset = int_of_digits start_g,
                         end_offset = int_of_digits end_g,
                         obj_size = Size summary\<rparr>)
         else None)"

section \<open>StreamGrouper: \<open>grouped_object_summaries\<close>\<close>

text \<open>
  Appending a record: \<open>grouped[topic]\<close> and \<open>grouped[topic][partition]\<close> are created
  empty when the key is new, which puts the key last; then the record is appended to the
  list. \<open>AList.update\<close> replaces the value of a key in place and puts a new key last.
\<close>

definition add_record ::
  "stream_record list by_topic \<Rightarrow> stream_record \<Rightarrow> stream_record list by_topic" where
  "add_record grouped r =
     (let parts = (case map_of grouped (topic r) of None \<Rightarrow> [] | Some ps \<Rightarrow> ps);
          keys = (case map_of parts (partition_no r) of None \<Rightarrow> [] | Some ks \<Rightarrow> ks)
      in AList.update (topic r) (AList.update (partition_no r) (keys @ [r]) parts) grouped)"

definition group_step ::
  "stream_record list by_topic \<Rightarrow> summary \<Rightarrow> stream_record list by_topic" where
  "group_step grouped summary =
     (case summary_record summary of None \<Rightarrow> grouped | Some r \<Rightarrow> add_record grouped r)"

text \<open>The second loop sorts every list; \<open>sorted\<close> is stable, as \<open>sort_key\<close> is.\<close>

definition sort_groups :: "stream_record list by_topic \<Rightarrow> stream_record list by_topic" where
  "sort_groups grouped =
     map (\<lambda>(topic, parts).
            (topic, map (\<lambda>(partition, keys). (partition, sort_key start_offset keys)) parts))
         grouped"

definition grouped_object_summaries :: "summary list \<Rightarrow> stream_record list by_topic" where
  "grouped_object_summaries summaries = sort_groups (foldl group_step [] summaries)"

section \<open>Batcher: \<open>batched_object_summaries\<close>\<close>

text \<open>
  The state of the loop over the objects of one partition: the batches closed so far
  (\<open>batches[topic][partition]\<close>) and the three running variables.
\<close>

record batch_state =
  closed_batches :: "stream_record list list"
  current_batch :: "stream_record list"
  current_batch_size :: int
  current_batch_count :: int

definition batch_init :: batch_state where
  "batch_init = \<lparr>closed_batches = [], current_batch = [],
                 current_batch_size = 0, current_batch_count = 0\<rparr>"

definition batch_step :: "int \<Rightarrow> int \<Rightarrow> batch_state \<Rightarrow> stream_record \<Rightarrow> batch_state" where
  "batch_step max_size max_count st obj =
     (let cb = current_batch st @ [obj];
          sz = current_batch_size st + obj_size obj;
          cnt = current_batch_count st + 1
      in if sz \<ge> max_size \<or> cnt \<ge> max_count
         then \<lparr>closed_batches = closed_batches st @ [cb], current_batch = [],
               current_batch_size = 0, current_batch_count = 0\<rparr>
         else \<lparr>closed_batches = closed_batches st, current_batch = cb,
               current_batch_size = sz, current_batch_count = cnt\<rparr>)"

definition batch_loop :: "int \<Rightarrow> int \<Rightarrow> batch_state \<Rightarrow> stream_record list \<Rightarrow> batch_state" where
  "batch_loop max_size max_count st objects = foldl (batch_step max_size max_count) st objects"

definition batch_finish :: "batch_state \<Rightarrow> stream_record list list" where
  "batch_finish st =
     (if length (current_batch st) > 0 then closed_batches st @ [current_batch st]
      else closed_batches st)"

definition batch_partition :: "int \<Rightarrow> int \<Rightarrow> stream_record list \<Rightarrow> stream_record list list" where
  "batch_partition max_size max_count objects =
     batch_finish (batch_loop max_size max_count batch_init objects)"

definition batched_object_summaries ::
  "int \<Rightarrow> int \<Rightarrow> stream_record list by_topic \<Rightarrow> stream_record list list by_topic" where
  "batched_object_summaries max_size max_count grouped =
     map (\<lambda>(topic, parts).
            (topic, map (\<lambda>(partition, objects).
                           (partition, batch_partition max_size max_count objects)) parts))
         grouped"

definition total_size :: "stream_record list \<Rightarrow> int" where
  "total_size b = sum_list (map obj_size b)"

text \<open>What the loop keeps true of its running variables and of the batches it closed.\<close>

definition batch_inv :: "int \<Rightarrow> int \<Rightarrow> batch_state \<Rightarrow> bool" where
  "batch_inv max_size max_count st \<longleftrightarrow>
     current_batch_size st = total_size (current_batch st) \<and>
     current_batch_count st = int (length (current_batch st)) \<and>
     list_all (\<lambda>b. b \<noteq> [] \<and> (max_size \<le> total_size b \<or> max_count \<le> int (length b)))
       (closed_batches st) \<and>
     (current_batch st \<noteq> [] \<longrightarrow>
        total_size (current_batch st) < max_size \<and> int (length (current_batch st)) < max_count)"

text \<open>The records of a listing, in the order of the listing.\<close>

definition parsed_records :: "summary list \<Rightarrow> stream_record list" where
  "parsed_records summaries = List.map_filter summary_record summaries"

definition in_group :: "string \<Rightarrow> int \<Rightarrow> stream_record \<Rightarrow> bool" where
  "in_group t p r \<longleftrightarrow> topic r = t \<and> partition_no r = p"

section \<open>CoalesceOrchestrator: \<open>coalesce_batch\<close>, \<open>coalesce_partition\<close>, \<open>coalesce_topic\<close>\<close>

text \<open>
  The store client (\<open>utility/s3.py\<close>) is a parameter: its two operations take the
  bucket, the batch and the state of the store, and either return (\<open>None\<close>) or raise.
  \<open>ClientError\<close> is the store's rejection of a request; \<open>OtherException\<close> stands for
  any exception that is not a \<open>ClientError\<close>. The world a task runs in is the state of
  the store together with the log of the calls made to the client, so that a call that
  was not made is a call that is not in the log.
\<close>

datatype py_exception = ClientError | TypeError | OtherException

datatype s3_call =
  CoalesceCall string "stream_record list"
| DeleteCall string "stream_record list"

record 'st s3 =
  s3_coalesce :: "string \<Rightarrow> stream_record list \<Rightarrow> 'st \<Rightarrow> py_exception option \<times> 'st"
  s3_delete :: "string \<Rightarrow> stream_record list \<Rightarrow> 'st \<Rightarrow> py_exception option \<times> 'st"

type_synonym 'st world = "s3_call list \<times> 'st"

definition s3_coalesce_batch ::
  "'st s3 \<Rightarrow> string \<Rightarrow> stream_record list \<Rightarrow> 'st world \<Rightarrow> py_exception option \<times> 'st world" where
  "s3_coalesce_batch S bucket batch w =
     (case s3_coalesce S bucket batch (snd w) of
        (raised, st) \<Rightarrow> (raised, (fst w @ [CoalesceCall bucket batch], st)))"

definition s3_delete_batch ::
  "'st s3 \<Rightarrow> string \<Rightarrow> stream_record list \<Rightarrow> 'st world \<Rightarrow> py_exception option \<times> 'st world" where
  "s3_delete_batch S bucket batch w =
     (case s3_delete S bucket batch (snd w) of
        (raised, st) \<Rightarrow> (raised, (fst w @ [DeleteCall bucket batch], st)))"

text \<open>
  The body of the \<open>try\<close> of \<open>coalesce_batch\<close>: what it raised, if anything. The delete
  is reached only when the coalesce returned.
\<close>

definition coalesce_batch_body ::
  "'st s3 \<Rightarrow> string \<Rightarrow> stream_record list \<Rightarrow> 'st world \<Rightarrow> py_exception option \<times> 'st world" where
  "coalesce_batch_body S bucket batch w =
     (if length batch > 1
      then (case s3_coalesce_batch S bucket batch w of
              (None, w1) \<Rightarrow> s3_delete_batch S bucket batch w1
            | (Some e, w1) \<Rightarrow> (Some e, w1))
      else (None, w))"

text \<open>
  \<open>except ClientError\<close> turns a \<open>ClientError\<close> into the result \<open>False\<close>; any other
  exception leaves the function (\<open>Inl\<close>).
\<close>

definition coalesce_batch ::
  "'st s3 \<Rightarrow> string \<Rightarrow> stream_record list \<Rightarrow> 'st world \<Rightarrow> (py_exception + bool) \<times> 'st world" where
  "coalesce_batch S bucket batch w =
     (case coalesce_batch_body S bucket batch w of
        (None, w1) \<Rightarrow> (Inr True, w1)
      | (Some e, w1) \<Rightarrow> (if e = ClientError then (Inr False, w1) else (Inl e, w1)))"

text \<open>The list comprehension of \<open>coalesce_partition\<close>: it stops at an exception.\<close>

fun coalesce_partition ::
  "'st s3 \<Rightarrow> string \<Rightarrow> stream_record list list \<Rightarrow> 'st world
     \<Rightarrow> (py_exception + bool list) \<times> 'st world" where
  "coalesce_partition S bucket [] w = (Inr [], w)"
| "coalesce_partition S bucket (batch # rest) w =
     (case coalesce_batch S bucket batch w of
        (Inl e, w1) \<Rightarrow> (Inl e, w1)
      | (Inr ok, w1) \<Rightarrow>
          (case coalesce_partition S bucket rest w1 of
             (Inl e, w2) \<Rightarrow> (Inl e, w2)
           | (Inr oks, w2) \<Rightarrow> (Inr (ok # oks), w2)))"



section \<open>ResultAggregator\<close>

text \<open>
  Modelled from the spec: \<open>successful_result\<close>, which \<open>main.py\<close> imports from
  \<open>utility/grouping.py\<close> and that file does not define. The spec has it reduce the
  outcomes of all batches, across all streams and partitions, to one boolean by logical
  and, true when there is no batch. The argument is the list \<open>results\<close> of \<open>main\<close>:
  per topic the list of the values of the futures, each the list of the outcomes of the
  batches of one partition.
\<close>

definition successful_result :: "bool list list list \<Rightarrow> bool" where
  "successful_result results = list_all (list_all (list_all (\<lambda>ok. ok))) results"

text \<open>The argument of \<open>exit\<close> in the last line of \<open>main\<close>.\<close>

definition exit_status :: "bool list list list \<Rightarrow> int" where
  "exit_status results = (if successful_result results then 0 else 2)"

section \<open>The call of the grouper in \<open>main\<close>\<close>

text \<open>
  \<open>main\<close> calls \<open>grouped_object_summaries(summaries, args.partition)\<close>, with the
  partition filter of the command line (\<open>None\<close> when the option is not given) as a
  second positional argument. The function is defined with the one parameter
  \<open>summaries\<close>, and a call with more positional arguments than parameters raises
  \<open>TypeError\<close> before the body runs.
\<close>

definition call_grouped_object_summaries ::
  "summary list \<Rightarrow> int option list \<Rightarrow> py_exception + stream_record list by_topic" where
  "call_grouped_object_summaries summaries more_arguments =
     (if more_arguments = [] then Inr (grouped_object_summaries summaries)
      else Inl TypeError)"

definition main_grouped ::
  "summary list \<Rightarrow> int option \<Rightarrow> py_exception + stream_record list by_topic" where
  "main_grouped summaries partition_filter =
     call_grouped_object_summaries summaries [partition_filter]"

section \<open>Properties of the batcher\<close>

lemma batch_loop_Nil: "batch_loop ms mc st [] = st"
  by (simp add: batch_loop_def)

lemma batch_loop_Cons:
  "batch_loop ms mc st (x # xs) = batch_loop ms mc (batch_step ms mc st x) xs"
  by (simp add: batch_loop_def)

lemma batch_loop_append:
  "batch_loop ms mc st (xs @ ys) = batch_loop ms mc (batch_loop ms mc st xs) ys"
  by (simp add: batch_loop_def)

lemma batch_init_inv: "batch_inv ms mc batch_init"
  by (simp add: batch_inv_def batch_init_def total_size_def)

lemma batch_step_inv: "batch_inv ms mc st \<Longrightarrow> batch_inv ms mc (batch_step ms mc st x)"
  by (auto simp: batch_inv_def batch_step_def total_size_def Let_def)

lemma batch_loop_inv: "batch_inv ms mc st \<Longrightarrow> batch_inv ms mc (batch_loop ms mc st xs)"
  by (induction xs arbitrary: st) (simp_all add: batch_loop_Nil batch_loop_Cons batch_step_inv)

lemma batch_step_concat:
  "concat (closed_batches (batch_step ms mc st x)) @ current_batch (batch_step ms mc st x)
     = concat (closed_batches st) @ current_batch st @ [x]"
  by (simp add: batch_step_def Let_def)

lemma batch_loop_concat:
  "concat (closed_batches (batch_loop ms mc st xs)) @ current_batch (batch_loop ms mc st xs)
     = concat (closed_batches st) @ current_batch st @ xs"
  by (induction xs arbitrary: st) (simp_all add: batch_loop_Nil batch_loop_Cons batch_step_concat)

lemma batch_finish_concat: "concat (batch_finish st) = concat (closed_batches st) @ current_batch st"
  by (simp add: batch_finish_def)

lemma batch_partition_concat: "concat (batch_partition ms mc xs) = xs"
  by (simp add: batch_partition_def batch_finish_concat batch_loop_concat batch_init_def)

lemma batch_partition_nonempty: "[] \<notin> set (batch_partition ms mc xs)"
proof -
  have "batch_inv ms mc (batch_loop ms mc batch_init xs)"
    by (rule batch_loop_inv [OF batch_init_inv])
  then show ?thesis
    by (auto simp: batch_partition_def batch_finish_def batch_inv_def list_all_iff)
qed

lemma batch_partition_closed_or_rest:
  "batch_partition ms mc xs = closed_batches (batch_loop ms mc batch_init xs) \<or>
   batch_partition ms mc xs = closed_batches (batch_loop ms mc batch_init xs)
                               @ [current_batch (batch_loop ms mc batch_init xs)]"
  by (simp add: batch_partition_def batch_finish_def)

lemma list_all_butlast: "list_all P xs \<Longrightarrow> list_all P (butlast xs)"
  by (auto simp: list_all_iff dest: in_set_butlastD)

lemma batch_partition_butlast_closed:
  "list_all P (closed_batches (batch_loop ms mc batch_init xs))
     \<Longrightarrow> list_all P (butlast (batch_partition ms mc xs))"
  using batch_partition_closed_or_rest [of ms mc xs] by (auto simp: list_all_butlast)

text \<open>With a positive count bound no batch grows past it.\<close>

definition count_inv :: "int \<Rightarrow> batch_state \<Rightarrow> bool" where
  "count_inv max_count st \<longleftrightarrow>
     current_batch_count st = int (length (current_batch st)) \<and>
     int (length (current_batch st)) < max_count \<and>
     list_all (\<lambda>b. int (length b) \<le> max_count) (closed_batches st)"

lemma count_inv_init: "0 < mc \<Longrightarrow> count_inv mc batch_init"
  by (simp add: count_inv_def batch_init_def)

lemma count_inv_step: "count_inv mc st \<Longrightarrow> count_inv mc (batch_step ms mc st x)"
  by (auto simp: count_inv_def batch_step_def Let_def)

lemma count_inv_loop: "count_inv mc st \<Longrightarrow> count_inv mc (batch_loop ms mc st xs)"
  by (induction xs arbitrary: st) (simp_all add: batch_loop_Nil batch_loop_Cons count_inv_step)

lemma batch_partition_count:
  assumes "0 < mc"
  shows "list_all (\<lambda>b. int (length b) \<le> mc) (batch_partition ms mc xs)"
proof -
  have "count_inv mc (batch_loop ms mc batch_init xs)"
    by (rule count_inv_loop [OF count_inv_init [OF assms]])
  then show ?thesis
    by (auto simp: batch_partition_def batch_finish_def count_inv_def)
qed

lemma closed_batches_bound:
  "list_all (\<lambda>b. ms \<le> total_size b \<or> mc \<le> int (length b))
     (closed_batches (batch_loop ms mc batch_init xs))"
proof -
  have "batch_inv ms mc (batch_loop ms mc batch_init xs)"
    by (rule batch_loop_inv [OF batch_init_inv])
  then show ?thesis
    by (auto simp: batch_inv_def list_all_iff)
qed

lemma remainder_below_bounds:
  assumes "current_batch (batch_loop ms mc batch_init xs) \<noteq> []"
  shows "total_size (current_batch (batch_loop ms mc batch_init xs)) < ms \<and>
         int (length (current_batch (batch_loop ms mc batch_init xs))) < mc"
proof -
  have "batch_inv ms mc (batch_loop ms mc batch_init xs)"
    by (rule batch_loop_inv [OF batch_init_inv])
  with assms show ?thesis
    by (simp add: batch_inv_def)
qed

lemma remainder_is_last:
  assumes "current_batch (batch_loop ms mc batch_init xs) \<noteq> []"
  shows "batch_partition ms mc xs = closed_batches (batch_loop ms mc batch_init xs)
                                      @ [current_batch (batch_loop ms mc batch_init xs)]"
  using assms by (simp add: batch_partition_def batch_finish_def)

lemma batched_lookup:
  "lookup2 (batched_object_summaries ms mc grouped) t p
     = map_option (batch_partition ms mc) (lookup2 grouped t p)"
proof -
  have inner: "map_of (map (\<lambda>(partition, objects). (partition, batch_partition ms mc objects)) ps) p
                 = map_option (batch_partition ms mc) (map_of ps p)" for ps
    by (induction ps) auto
  have outer: "map_of (batched_object_summaries ms mc grouped) t
                 = map_option (map (\<lambda>(partition, objects). (partition, batch_partition ms mc objects)))
                     (map_of grouped t)"
    unfolding batched_object_summaries_def by (induction grouped) auto
  show ?thesis
    by (cases "map_of grouped t") (simp_all add: lookup2_def outer inner)
qed

section \<open>Properties of the pattern\<close>

lemma lit_Some: "lit c k s = Some r \<longleftrightarrow> (\<exists>xs. s = c # xs \<and> k xs = Some r)"
  by (cases s) (auto simp: lit_def)

lemma lits_Some: "lits cs k s = Some r \<longleftrightarrow> (\<exists>xs. s = cs @ xs \<and> k xs = Some r)"
  by (induction cs arbitrary: s) (auto simp: lit_Some)

lemma dollar_Some: "dollar k s = Some r \<longleftrightarrow> line_end s \<and> k s = Some r"
  by (auto simp: dollar_def line_end_def)

lemma greedy_try_Some:
  "greedy_try n k s = Some r \<Longrightarrow> \<exists>m. 0 < m \<and> m \<le> n \<and> k (take m s) (drop m s) = Some r"
proof (induction n)
  case 0
  then show ?case by simp
next
  case (Suc n)
  show ?case
  proof (cases "k (take (Suc n) s) (drop (Suc n) s)")
    case None
    with Suc.prems have "greedy_try n k s = Some r" by simp
    from Suc.IH [OF this] show ?thesis by (auto intro: le_SucI)
  next
    case (Some a)
    with Suc.prems have "k (take (Suc n) s) (drop (Suc n) s) = Some r" by simp
    then show ?thesis by blast
  qed
qed

lemma greedy_try_complete:
  "0 < m \<Longrightarrow> m \<le> n \<Longrightarrow> k (take m s) (drop m s) \<noteq> None \<Longrightarrow> greedy_try n k s \<noteq> None"
proof (induction n)
  case 0
  then show ?case by simp
next
  case (Suc n)
  show ?case
  proof (cases "m = Suc n")
    case True
    with Suc.prems show ?thesis by (auto split: option.splits)
  next
    case False
    with Suc.prems have "m \<le> n" by simp
    from Suc.IH [OF Suc.prems(1) this Suc.prems(3)] show ?thesis
      by (auto split: option.splits)
  qed
qed

lemma plus_group_Some:
  assumes "plus_group C k s = Some r"
  shows "\<exists>g rest. s = g @ rest \<and> g \<noteq> [] \<and> list_all C g \<and> k g rest = Some r"
proof -
  from assms obtain m where m: "0 < m" "m \<le> length (takeWhile C s)"
      and k: "k (take m s) (drop m s) = Some r"
    unfolding plus_group_def by (blast dest: greedy_try_Some)
  have "take m s = take m (takeWhile C s @ dropWhile C s)"
    by simp
  also have "\<dots> = take m (takeWhile C s)"
    using m(2) by (simp del: takeWhile_dropWhile_id)
  finally have "take m s = take m (takeWhile C s)" .
  then have "set (take m s) \<subseteq> set (takeWhile C s)"
    by (simp add: set_take_subset)
  then have "list_all C (take m s)"
    by (auto simp: list_all_iff dest: set_takeWhileD)
  moreover have "take m s \<noteq> []"
    using m length_takeWhile_le [of C s] by auto
  moreover have "s = take m s @ drop m s" by simp
  ultimately show ?thesis using k by blast
qed

lemma plus_group_complete:
  assumes "g \<noteq> []" and "list_all C g" and "k g rest \<noteq> None"
  shows "plus_group C k (g @ rest) \<noteq> None"
proof -
  have "takeWhile C (g @ rest) = g @ takeWhile C rest"
    using assms(2) by (simp add: list_all_iff)
  then have le: "length g \<le> length (takeWhile C (g @ rest))" by simp
  have pos: "0 < length g" using assms(1) by simp
  have k: "k (take (length g) (g @ rest)) (drop (length g) (g @ rest)) \<noteq> None"
    using assms(3) by simp
  show ?thesis
    unfolding plus_group_def
    by (rule greedy_try_complete
          [of "length g" "length (takeWhile C (g @ rest))" k "g @ rest", OF pos le k])
qed

lemma lit_SomeE:
  assumes "lit c k s = Some r"
  obtains xs where "s = c # xs" and "k xs = Some r"
  using assms by (auto simp: lit_Some)

lemma plus_group_SomeE:
  assumes "plus_group C k s = Some r"
  obtains g rest where "s = g @ rest" and "g \<noteq> []" and "list_all C g" and "k g rest = Some r"
  using plus_group_Some [OF assms] by blast

lemma filename_re_sound:
  assumes "filename_re s = Some (g, rest)"
  shows "s = grammar_name g @ rest \<and> grammar_fields g \<and> line_end rest"
proof -
  from assms obtain x1 where a1: "s = CHR ''/'' # x1"
    and b1: "plus_group is_topic_char (\<lambda>topic. lit CHR ''_'' (plus_group is_digit (\<lambda>partition. lit CHR ''_'' (plus_group is_digit (\<lambda>start. lit CHR ''-'' (plus_group is_digit (\<lambda>end. lits ''.jsonl.gz'' (dollar (\<lambda>rest. Some ((topic, partition, start, end), rest)))))))))) x1 = Some (g, rest)"
    unfolding filename_re_def by (rule lit_SomeE)
  from b1 obtain t y1 where c1: "x1 = t @ y1" "t \<noteq> []" "list_all is_topic_char t"
    and d1: "lit CHR ''_'' (plus_group is_digit (\<lambda>partition. lit CHR ''_'' (plus_group is_digit (\<lambda>start. lit CHR ''-'' (plus_group is_digit (\<lambda>end. lits ''.jsonl.gz'' (dollar (\<lambda>rest. Some ((t, partition, start, end), rest))))))))) y1 = Some (g, rest)"
    by (rule plus_group_SomeE)
  from d1 obtain x2 where a2: "y1 = CHR ''_'' # x2"
    and b2: "plus_group is_digit (\<lambda>partition. lit CHR ''_'' (plus_group is_digit (\<lambda>start. lit CHR ''-'' (plus_group is_digit (\<lambda>end. lits ''.jsonl.gz'' (dollar (\<lambda>rest. Some ((t, partition, start, end), rest)))))))) x2 = Some (g, rest)"
    by (rule lit_SomeE)
  from b2 obtain p y2 where c2: "x2 = p @ y2" "p \<noteq> []" "list_all is_digit p"
    and d2: "lit CHR ''_'' (plus_group is_digit (\<lambda>start. lit CHR ''-'' (plus_group is_digit (\<lambda>end. lits ''.jsonl.gz'' (dollar (\<lambda>rest. Some ((t, p, start, end), rest))))))) y2 = Some (g, rest)"
    by (rule plus_group_SomeE)
  from d2 obtain x3 where a3: "y2 = CHR ''_'' # x3"
    and b3: "plus_group is_digit (\<lambda>start. lit CHR ''-'' (plus_group is_digit (\<lambda>end. lits ''.jsonl.gz'' (dollar (\<lambda>rest. Some ((t, p, start, end), rest)))))) x3 = Some (g, rest)"
    by (rule lit_SomeE)
  from b3 obtain st y3 where c3: "x3 = st @ y3" "st \<noteq> []" "list_all is_digit st"
    and d3: "lit CHR ''-'' (plus_group is_digit (\<lambda>end. lits ''.jsonl.gz'' (dollar (\<lambda>rest. Some ((t, p, st, end), rest))))) y3 = Some (g, rest)"
    by (rule plus_group_SomeE)
  from d3 obtain x4 where a4: "y3 = CHR ''-'' # x4"
    and b4: "plus_group is_digit (\<lambda>end. lits ''.jsonl.gz'' (dollar (\<lambda>rest. Some ((t, p, st, end), rest)))) x4 = Some (g, rest)"
    by (rule lit_SomeE)
  from b4 obtain e y4 where c4: "x4 = e @ y4" "e \<noteq> []" "list_all is_digit e"
    and d4: "lits ''.jsonl.gz'' (dollar (\<lambda>rest. Some ((t, p, st, e), rest))) y4 = Some (g, rest)"
    by (rule plus_group_SomeE)
  from d4 obtain z where a5: "y4 = ''.jsonl.gz'' @ z"
    and b5: "dollar (\<lambda>rest. Some ((t, p, st, e), rest)) z = Some (g, rest)"
    unfolding lits_Some by blast
  from b5 have c5: "line_end rest" "g = (t, p, st, e)" "z = rest"
    unfolding dollar_Some by auto
  have "s = grammar_name g @ rest"
    by (simp add: a1 c1(1) a2 c2(1) a3 c3(1) a4 c4(1) a5 c5 grammar_name_def)
  moreover have "grammar_fields g"
    by (simp add: c5(2) grammar_fields_def c1 c2 c3 c4)
  ultimately show ?thesis using c5(1) by simp
qed

lemma filename_re_complete:
  assumes "grammar_fields g" and "line_end rest"
  shows "filename_re (grammar_name g @ rest) \<noteq> None"
proof -
  obtain t p st e where g: "g = (t, p, st, e)" by (cases g) auto
  from assms(1) have f: "t \<noteq> []" "list_all is_topic_char t" "p \<noteq> []" "list_all is_digit p"
    "st \<noteq> []" "list_all is_digit st" "e \<noteq> []" "list_all is_digit e"
    by (simp_all add: g grammar_fields_def)
  have k5: "lits ''.jsonl.gz'' (dollar (\<lambda>rest. Some ((t, p, st, e), rest))) (''.jsonl.gz'' @ rest) \<noteq> None"
    using assms(2) by (simp add: lit_def dollar_def line_end_def)
  have "plus_group is_digit (\<lambda>end. lits ''.jsonl.gz'' (dollar (\<lambda>rest. Some ((t, p, st, end), rest)))) (e @ ''.jsonl.gz'' @ rest) \<noteq> None"
    by (rule plus_group_complete) (use f k5 in simp_all)
  then have k4: "lit CHR ''-'' (plus_group is_digit (\<lambda>end. lits ''.jsonl.gz'' (dollar (\<lambda>rest. Some ((t, p, st, end), rest))))) (CHR ''-'' # e @ ''.jsonl.gz'' @ rest) \<noteq> None"
    by (simp add: lit_def)
  have "plus_group is_digit (\<lambda>start. lit CHR ''-'' (plus_group is_digit (\<lambda>end. lits ''.jsonl.gz'' (dollar (\<lambda>rest. Some ((t, p, start, end), rest)))))) (st @ CHR ''-'' # e @ ''.jsonl.gz'' @ rest) \<noteq> None"
    by (rule plus_group_complete) (use f k4 in simp_all)
  then have k3: "lit CHR ''_'' (plus_group is_digit (\<lambda>start. lit CHR ''-'' (plus_group is_digit (\<lambda>end. lits ''.jsonl.gz'' (dollar (\<lambda>rest. Some ((t, p, start, end), rest))))))) (CHR ''_'' # st @ CHR ''-'' # e @ ''.jsonl.gz'' @ rest) \<noteq> None"
    by (simp add: lit_def)
  have "plus_group is_digit (\<lambda>partition. lit CHR ''_'' (plus_group is_digit (\<lambda>start. lit CHR ''-'' (plus_group is_digit (\<lambda>end. lits ''.jsonl.gz'' (dollar (\<lambda>rest. Some ((t, partition, start, end), rest)))))))) (p @ CHR ''_'' # st @ CHR ''-'' # e @ ''.jsonl.gz'' @ rest) \<noteq> None"
    by (rule plus_group_complete) (use f k3 in simp_all)
  then have k2: "lit CHR ''_'' (plus_group is_digit (\<lambda>partition. lit CHR ''_'' (plus_group is_digit (\<lambda>start. lit CHR ''-'' (plus_group is_digit (\<lambda>end. lits ''.jsonl.gz'' (dollar (\<lambda>rest. Some ((t, partition, start, end), rest))))))))) (CHR ''_'' # p @ CHR ''_'' # st @ CHR ''-'' # e @ ''.jsonl.gz'' @ rest) \<noteq> None"
    by (simp add: lit_def)
  have "plus_group is_topic_char (\<lambda>topic. lit CHR ''_'' (plus_group is_digit (\<lambda>partition. lit CHR ''_'' (plus_group is_digit (\<lambda>start. lit CHR ''-'' (plus_group is_digit (\<lambda>end. lits ''.jsonl.gz'' (dollar (\<lambda>rest. Some ((topic, partition, start, end), rest)))))))))) (t @ CHR ''_'' # p @ CHR ''_'' # st @ CHR ''-'' # e @ ''.jsonl.gz'' @ rest) \<noteq> None"
    by (rule plus_group_complete) (use f k2 in simp_all)
  then have k1: "lit CHR ''/'' (plus_group is_topic_char (\<lambda>topic. lit CHR ''_'' (plus_group is_digit (\<lambda>partition. lit CHR ''_'' (plus_group is_digit (\<lambda>start. lit CHR ''-'' (plus_group is_digit (\<lambda>end. lits ''.jsonl.gz'' (dollar (\<lambda>rest. Some ((topic, partition, start, end), rest))))))))))) (CHR ''/'' # t @ CHR ''_'' # p @ CHR ''_'' # st @ CHR ''-'' # e @ ''.jsonl.gz'' @ rest) \<noteq> None"
    by (simp add: lit_def)
  from k1 show ?thesis
    by (simp add: g grammar_name_def filename_re_def)
qed


lemma separators_not_digit:
  "\<not> is_digit CHR ''-''" "\<not> is_digit CHR ''_''" "\<not> is_digit CHR ''/''"
  by (simp_all add: is_digit_def)

lemma slash_not_topic_char: "\<not> is_topic_char CHR ''/''"
  by (simp add: is_topic_char_def is_word_def is_alnum_def)

lemma split_at_last:
  assumes eq: "xs @ c # ys = xs' @ c' # ys'"
    and "list_all P ys" and "list_all P ys'" and "\<not> P c" and "\<not> P c'"
  shows "xs = xs' \<and> ys = ys'"
proof -
  have tw: "takeWhile P (rev (as @ a # bs)) = rev bs" if "list_all P bs" and "\<not> P a"
    for as a bs
  proof -
    have "takeWhile P (rev bs @ a # rev as) = rev bs @ takeWhile P (a # rev as)"
      by (rule takeWhile_append2) (use that(1) in \<open>simp add: list_all_iff\<close>)
    with that(2) show ?thesis by simp
  qed
  from eq have "takeWhile P (rev (xs @ c # ys)) = takeWhile P (rev (xs' @ c' # ys'))"
    by (rule arg_cong)
  then have "rev ys = rev ys'"
    by (simp only: tw [OF assms(2,4)] tw [OF assms(3,5)])
  then have ys: "ys = ys'"
    by simp
  with eq have "xs @ [c] = xs' @ [c']"
    by (metis append.assoc append_Cons append_Nil append_same_eq)
  with ys show ?thesis by simp
qed

lemma last_grammar_name:
  "last (grammar_name g @ rest) = (if rest = [] then CHR ''z'' else last rest)"
  by (cases g) (simp add: grammar_name_def)

lemma grammar_name_unique:
  assumes eq: "grammar_name g @ rest = grammar_name g' @ rest'"
    and g: "grammar_fields g" and g': "grammar_fields g'"
    and r: "line_end rest" and r': "line_end rest'"
  shows "g = g' \<and> rest = rest'"
proof -
  obtain t p st e where gd: "g = (t, p, st, e)" by (cases g) auto
  obtain t' p' st' e' where gd': "g' = (t', p', st', e')" by (cases g') auto
  from eq have "last (grammar_name g @ rest) = last (grammar_name g' @ rest')"
    by simp
  with r r' have rest: "rest = rest'"
    by (auto simp: last_grammar_name line_end_def split: if_splits)
  with eq have "grammar_name g = grammar_name g'"
    by simp
  then have 0: "(CHR ''/'' # t @ CHR ''_'' # p @ CHR ''_'' # st) @ CHR ''-'' # e
                 = (CHR ''/'' # t' @ CHR ''_'' # p' @ CHR ''_'' # st') @ CHR ''-'' # e'"
    by (simp add: gd gd' grammar_name_def)
  from g g' have d: "list_all is_digit e" "list_all is_digit e'" "list_all is_digit st"
      "list_all is_digit st'" "list_all is_digit p" "list_all is_digit p'"
    by (simp_all add: gd gd' grammar_fields_def)
  from split_at_last [OF 0 d(1,2) separators_not_digit(1) separators_not_digit(1)]
  have e: "e = e'"
    and 1: "(CHR ''/'' # t @ CHR ''_'' # p) @ CHR ''_'' # st
             = (CHR ''/'' # t' @ CHR ''_'' # p') @ CHR ''_'' # st'"
    by simp_all
  from split_at_last [OF 1 d(3,4) separators_not_digit(2) separators_not_digit(2)]
  have st: "st = st'"
    and 2: "(CHR ''/'' # t) @ CHR ''_'' # p = (CHR ''/'' # t') @ CHR ''_'' # p'"
    by simp_all
  from split_at_last [OF 2 d(5,6) separators_not_digit(2) separators_not_digit(2)]
  have "p = p'" and "t = t'"
    by simp_all
  with e st rest show ?thesis
    by (simp add: gd gd')
qed

lemma filename_re_exact:
  assumes "grammar_fields g" and "line_end rest"
  shows "filename_re (grammar_name g @ rest) = Some (g, rest)"
proof -
  from filename_re_complete [OF assms]
  obtain g' rest' where m: "filename_re (grammar_name g @ rest) = Some (g', rest')"
    by auto
  from filename_re_sound [OF m]
  have "grammar_name g @ rest = grammar_name g' @ rest'" "grammar_fields g'" "line_end rest'"
    by simp_all
  from grammar_name_unique [OF this(1) assms(1) this(2) assms(2) this(3)] m
  show ?thesis by simp
qed

lemma no_slash_after_first:
  assumes "grammar_fields g" and "line_end rest"
  shows "CHR ''/'' \<notin> set (tl (grammar_name g @ rest))"
proof -
  obtain t p st e where gd: "g = (t, p, st, e)" by (cases g) auto
  from assms(1) have "CHR ''/'' \<notin> set t" "CHR ''/'' \<notin> set p" "CHR ''/'' \<notin> set st"
      "CHR ''/'' \<notin> set e"
    using separators_not_digit(3) slash_not_topic_char
    by (auto simp: gd grammar_fields_def list_all_iff)
  moreover from assms(2) have "CHR ''/'' \<notin> set rest"
    by (auto simp: line_end_def)
  ultimately show ?thesis
    by (simp add: gd grammar_name_def)
qed

lemma filename_re_before_name:
  assumes "grammar_fields g" and "line_end rest"
  shows "filename_re (c # pre @ grammar_name g @ rest) = None"
proof (rule ccontr)
  assume "filename_re (c # pre @ grammar_name g @ rest) \<noteq> None"
  then obtain g' rest' where "filename_re (c # pre @ grammar_name g @ rest) = Some (g', rest')"
    by auto
  from filename_re_sound [OF this]
  have eq: "c # pre @ grammar_name g @ rest = grammar_name g' @ rest'"
    and wf: "grammar_fields g'" "line_end rest'"
    by simp_all
  have "CHR ''/'' \<in> set (pre @ grammar_name g @ rest)"
    by (cases g) (simp add: grammar_name_def)
  then have "CHR ''/'' \<in> set (tl (grammar_name g' @ rest'))"
    by (simp add: eq [symmetric])
  with no_slash_after_first [OF wf] show False by simp
qed

lemma findall_line_end:
  assumes "line_end rest"
  shows "findall rest = []"
proof -
  have nil: "findall [] = []"
    by (subst findall.simps) (simp add: filename_re_def lit_def)
  have "findall [CHR 0x0A] = []"
    by (subst findall.simps) (simp add: filename_re_def lit_def nil)
  with nil assms show ?thesis
    by (auto simp: line_end_def)
qed

lemma findall_grammar_name:
  assumes "grammar_fields g" and "line_end rest"
  shows "findall (pre @ grammar_name g @ rest) = [g]"
proof (induction pre)
  case Nil
  have "length rest < length (grammar_name g @ rest)"
    by (cases g) (simp add: grammar_name_def)
  then show ?case
    by (subst findall.simps)
       (simp add: filename_re_exact [OF assms] findall_line_end [OF assms(2)])
next
  case (Cons c pre)
  show ?case
    by (subst findall.simps) (simp add: filename_re_before_name [OF assms] Cons.IH)
qed







section \<open>Properties of the grouper\<close>

lemma map_values_lookup:
  "lookup2 (map (\<lambda>(t, ps). (t, map (\<lambda>(p, v). (p, f v)) ps)) d) t p
     = map_option f (lookup2 d t p)"
proof -
  have inner: "map_of (map (\<lambda>(p, v). (p, f v)) ps) p = map_option f (map_of ps p)" for ps
    by (induction ps) auto
  have outer: "map_of (map (\<lambda>(t, ps). (t, map (\<lambda>(p, v). (p, f v)) ps)) d) t
                 = map_option (map (\<lambda>(p, v). (p, f v))) (map_of d t)"
    by (induction d) auto
  show ?thesis
    by (cases "map_of d t") (simp_all add: lookup2_def outer inner)
qed

lemma add_record_lookup:
  "lookup2 (add_record g r) t p
     = (if in_group t p r
        then Some ((case lookup2 g t p of None \<Rightarrow> [] | Some ks \<Rightarrow> ks) @ [r])
        else lookup2 g t p)"
  by (auto simp: add_record_def lookup2_def in_group_def Let_def update_conv'
           split: option.splits)

lemma group_step_lookup:
  "lookup2 (group_step g s) t p
     = (case summary_record s of
          None \<Rightarrow> lookup2 g t p
        | Some r \<Rightarrow>
            if in_group t p r
            then Some ((case lookup2 g t p of None \<Rightarrow> [] | Some ks \<Rightarrow> ks) @ [r])
            else lookup2 g t p)"
  by (simp add: group_step_def add_record_lookup split: option.splits)

lemma group_loop_lookup:
  "lookup2 (foldl group_step g summaries) t p
     = (if filter (in_group t p) (parsed_records summaries) = [] then lookup2 g t p
        else Some ((case lookup2 g t p of None \<Rightarrow> [] | Some ks \<Rightarrow> ks)
                   @ filter (in_group t p) (parsed_records summaries)))"
proof (induction summaries arbitrary: g)
  case Nil
  then show ?case by (simp add: parsed_records_def)
next
  case (Cons s summaries)
  show ?case
    by (cases "summary_record s")
       (simp_all add: Cons.IH group_step_lookup parsed_records_def)
qed

lemma grouped_lookup:
  "lookup2 (grouped_object_summaries summaries) t p
     = (if filter (in_group t p) (parsed_records summaries) = [] then None
        else Some (sort_key start_offset (filter (in_group t p) (parsed_records summaries))))"
proof -
  have empty: "lookup2 ([] :: stream_record list by_topic) t p = None"
    by (simp add: lookup2_def)
  have "lookup2 (grouped_object_summaries summaries) t p
          = map_option (sort_key start_offset) (lookup2 (foldl group_step [] summaries) t p)"
    unfolding grouped_object_summaries_def sort_groups_def by (rule map_values_lookup)
  then show ?thesis
    by (simp add: group_loop_lookup empty)
qed

lemma update_entries:
  "kv \<in> set (AList.update k v al) \<Longrightarrow> kv \<in> set al \<or> kv = (k, v)"
  by (induction al) (auto split: if_splits)

lemma add_record_keys_distinct:
  assumes "keys_distinct g"
  shows "keys_distinct (add_record g r)"
proof -
  let ?parts = "case map_of g (topic r) of None \<Rightarrow> [] | Some ps \<Rightarrow> ps"
  let ?keys = "case map_of ?parts (partition_no r) of None \<Rightarrow> [] | Some ks \<Rightarrow> ks"
  have parts: "distinct (map fst ?parts)"
  proof (cases "map_of g (topic r)")
    case None
    then show ?thesis by simp
  next
    case (Some ps)
    then have "(topic r, ps) \<in> set g" by (rule map_of_SomeD)
    with assms Some show ?thesis
      by (auto simp: keys_distinct_def list_all_iff)
  qed
  have new: "distinct (map fst (AList.update (partition_no r) (?keys @ [r]) ?parts))"
    by (rule distinct_update [OF parts])
  have "distinct (map fst (snd entry))"
    if "entry \<in> set (AList.update (topic r)
                        (AList.update (partition_no r) (?keys @ [r]) ?parts) g)" for entry
    using update_entries [OF that] assms new
    by (auto simp: keys_distinct_def list_all_iff)
  moreover have "distinct (map fst (AList.update (topic r)
                        (AList.update (partition_no r) (?keys @ [r]) ?parts) g))"
    using assms by (simp add: keys_distinct_def distinct_update)
  ultimately show ?thesis
    by (simp add: keys_distinct_def add_record_def Let_def list_all_iff)
qed

lemma group_loop_keys_distinct:
  "keys_distinct g \<Longrightarrow> keys_distinct (foldl group_step g summaries)"
  by (induction summaries arbitrary: g)
     (simp_all add: group_step_def add_record_keys_distinct split: option.splits)

lemma map_values_keys_distinct:
  assumes "keys_distinct d"
  shows "keys_distinct (map (\<lambda>(t, ps). (t, map (\<lambda>(p, v). (p, f v)) ps)) d)"
proof -
  have inner: "map fst (map (\<lambda>(p, v). (p, f v)) ps) = map fst ps" for ps :: "(int \<times> 'a) list"
    by (induction ps) auto
  have outer: "map fst (map (\<lambda>(t, ps). (t, map (\<lambda>(p, v). (p, f v)) ps)) d) = map fst d"
    by (induction d) auto
  have "distinct (map fst (snd entry))"
    if "entry \<in> set (map (\<lambda>(t, ps). (t, map (\<lambda>(p, v). (p, f v)) ps)) d)" for entry
  proof -
    from that obtain t ps where "(t, ps) \<in> set d"
      and entry: "entry = (t, map (\<lambda>(p, v). (p, f v)) ps)"
      by auto
    with assms have "distinct (map fst ps)"
      by (auto simp: keys_distinct_def list_all_iff)
    then show ?thesis
      by (simp only: entry snd_conv inner)
  qed
  with assms show ?thesis
    unfolding keys_distinct_def outer by (simp add: list_all_iff)
qed

lemma grouped_keys_distinct: "keys_distinct (grouped_object_summaries summaries)"
proof -
  have "keys_distinct ([] :: stream_record list by_topic)"
    by (simp add: keys_distinct_def)
  then have "keys_distinct (foldl group_step [] summaries)"
    by (rule group_loop_keys_distinct)
  then show ?thesis
    unfolding grouped_object_summaries_def sort_groups_def by (rule map_values_keys_distinct)
qed

lemma batched_keys_distinct:
  "keys_distinct grouped \<Longrightarrow> keys_distinct (batched_object_summaries ms mc grouped)"
  unfolding batched_object_summaries_def by (rule map_values_keys_distinct)

lemma entry_lookup:
  assumes "keys_distinct d" and "(t, ps) \<in> set d" and "(p, v) \<in> set ps"
  shows "lookup2 d t p = Some v"
proof -
  from assms(1,2) have "map_of d t = Some ps" and "distinct (map fst ps)"
    by (auto simp: keys_distinct_def list_all_iff)
  with assms(3) show ?thesis
    by (simp add: lookup2_def)
qed

lemma lookup_entry:
  assumes "lookup2 d t p = Some v"
  shows "\<exists>ps. (t, ps) \<in> set d \<and> (p, v) \<in> set ps"
  using assms by (auto simp: lookup2_def split: option.splits dest: map_of_SomeD)

lemma group_members:
  assumes "lookup2 (grouped_object_summaries summaries) t p = Some g"
  shows "set g = {r \<in> set (parsed_records summaries). in_group t p r}"
  using assms by (auto simp: grouped_lookup split: if_splits)



lemma group_entry_lookup:
  assumes "(t, ps) \<in> set (grouped_object_summaries summaries)" and "(p, g) \<in> set ps"
  shows "lookup2 (grouped_object_summaries summaries) t p = Some g"
  by (rule entry_lookup [OF grouped_keys_distinct assms])

lemma batched_entry:
  assumes "(t, pbs) \<in> set (batched_object_summaries ms mc grouped)" and "(p, bs) \<in> set pbs"
  shows "\<exists>ps g. (t, ps) \<in> set grouped \<and> (p, g) \<in> set ps \<and> bs = batch_partition ms mc g"
proof -
  from assms(1) obtain ps where ps: "(t, ps) \<in> set grouped"
    and pbs: "pbs = map (\<lambda>(partition, objects). (partition, batch_partition ms mc objects)) ps"
    by (auto simp: batched_object_summaries_def)
  from assms(2) obtain g where "(p, g) \<in> set ps" and "bs = batch_partition ms mc g"
    unfolding pbs by auto
  with ps show ?thesis
    by blast
qed

lemma batched_entry_of_group:
  assumes "(t, ps) \<in> set grouped" and "(p, g) \<in> set ps"
  shows "\<exists>pbs. (t, pbs) \<in> set (batched_object_summaries ms mc grouped) \<and>
               (p, batch_partition ms mc g) \<in> set pbs"
proof -
  let ?f = "\<lambda>(partition, objects). (partition, batch_partition ms mc objects)"
  from assms(2) have "(p, batch_partition ms mc g) \<in> set (map ?f ps)"
    by force
  moreover from assms(1) have "(t, map ?f ps) \<in> set (batched_object_summaries ms mc grouped)"
    by (force simp: batched_object_summaries_def)
  ultimately show ?thesis
    by blast
qed

lemma batch_entry_members:
  assumes "(t, pbs) \<in> set (batched_object_summaries ms mc (grouped_object_summaries summaries))"
    and "(p, bs) \<in> set pbs" and "b \<in> set bs" and "r \<in> set b"
  shows "r \<in> set (parsed_records summaries) \<and> in_group t p r"
proof -
  from batched_entry [OF assms(1,2)] obtain ps g
    where g: "(t, ps) \<in> set (grouped_object_summaries summaries)" "(p, g) \<in> set ps"
      and bs: "bs = batch_partition ms mc g"
    by blast
  from bs have "concat bs = g"
    by (simp add: batch_partition_concat)
  with assms(3,4) have "r \<in> set g"
    by auto
  with group_members [OF group_entry_lookup [OF g]] show ?thesis
    by simp
qed

section \<open>Claims about the batcher\<close>

text \<open>A record of topic \<open>t\<close>, partition 0, with a start offset and a size, for examples.\<close>

definition sample :: "int \<Rightarrow> int \<Rightarrow> stream_record" where
  "sample start sz = \<lparr>object_key = [], topic = ''t'', partition_no = 0,
                       start_offset = start, end_offset = start, obj_size = sz\<rparr>"

text \<open>
  C2: for positive \<open>max_size\<close> and \<open>max_count\<close>, every batch the loop closed had, when it
  closed, a cumulative size of at least \<open>max_size\<close> or a count of at least \<open>max_count\<close>,
  and these are all the batches of the group but possibly the last; every batch of the
  group has at most \<open>max_count\<close> records; and when records remain in the running batch
  after the last record of the group, that batch is emitted last, although it is below
  both bounds.
\<close>

theorem batch_bounds:
  assumes "0 < max_size" and "0 < max_count"
  shows "list_all (\<lambda>b. max_size \<le> total_size b \<or> max_count \<le> int (length b))
           (closed_batches (batch_loop max_size max_count batch_init objects)) \<and>
         list_all (\<lambda>b. max_size \<le> total_size b \<or> max_count \<le> int (length b))
           (butlast (batch_partition max_size max_count objects)) \<and>
         list_all (\<lambda>b. int (length b) \<le> max_count)
           (batch_partition max_size max_count objects) \<and>
         (current_batch (batch_loop max_size max_count batch_init objects) \<noteq> [] \<longrightarrow>
            batch_partition max_size max_count objects
              = closed_batches (batch_loop max_size max_count batch_init objects)
                @ [current_batch (batch_loop max_size max_count batch_init objects)] \<and>
            total_size (current_batch (batch_loop max_size max_count batch_init objects))
              < max_size \<and>
            int (length (current_batch (batch_loop max_size max_count batch_init objects)))
              < max_count)"
proof -
  have closed: "list_all (\<lambda>b. max_size \<le> total_size b \<or> max_count \<le> int (length b))
                  (closed_batches (batch_loop max_size max_count batch_init objects))"
    by (rule closed_batches_bound)
  have front: "list_all (\<lambda>b. max_size \<le> total_size b \<or> max_count \<le> int (length b))
                 (butlast (batch_partition max_size max_count objects))"
    by (rule batch_partition_butlast_closed [OF closed])
  have count: "list_all (\<lambda>b. int (length b) \<le> max_count)
                 (batch_partition max_size max_count objects)"
    by (rule batch_partition_count [OF assms(2)])
  show ?thesis
    using closed front count remainder_is_last [of max_size max_count objects]
      remainder_below_bounds [of max_size max_count objects]
    by blast
qed

text \<open>
  The bounds at work: with \<open>max_count = 2\<close> five records of size 1 give two closed
  batches of two records and a remainder of one.
\<close>

theorem batch_bounds_witness:
  "(0::int) < 100 \<and> (0::int) < 2 \<and>
   closed_batches (batch_loop 100 2 batch_init (map (\<lambda>i. sample i 1) [1, 2, 3, 4, 5]))
     = [[sample 1 1, sample 2 1], [sample 3 1, sample 4 1]] \<and>
   current_batch (batch_loop 100 2 batch_init (map (\<lambda>i. sample i 1) [1, 2, 3, 4, 5]))
     = [sample 5 1] \<and>
   batch_partition 100 2 (map (\<lambda>i. sample i 1) [1, 2, 3, 4, 5])
     = [[sample 1 1, sample 2 1], [sample 3 1, sample 4 1], [sample 5 1]] \<and>
   total_size [sample 5 1] < 100 \<and>
   list_all (\<lambda>b. int (length b) \<le> 2)
     (batch_partition 100 2 (map (\<lambda>i. sample i 1) [1, 2, 3, 4, 5]))"
proof -
  let ?objs = "map (\<lambda>i. sample i 1) [1, 2, 3, 4, 5]"
  have loop: "batch_loop 100 2 batch_init ?objs
                = \<lparr>closed_batches = [[sample 1 1, sample 2 1], [sample 3 1, sample 4 1]],
                   current_batch = [sample 5 1],
                   current_batch_size = 1, current_batch_count = 1\<rparr>"
    by (simp add: batch_loop_def batch_step_def batch_init_def Let_def sample_def)
  have rest: "current_batch (batch_loop 100 2 batch_init ?objs) \<noteq> []"
    unfolding loop by simp
  have pos: "(0::int) < 100" "(0::int) < 2"
    by simp_all
  note bounds = batch_bounds [OF pos, of ?objs]
  from bounds rest
  have last: "batch_partition 100 2 ?objs
          = closed_batches (batch_loop 100 2 batch_init ?objs)
            @ [current_batch (batch_loop 100 2 batch_init ?objs)]"
    by blast
  show ?thesis
    by (simp only: last loop) (simp add: total_size_def sample_def)
qed

text \<open>
  C6: a group of exactly one record gives exactly one batch, which holds that record,
  whatever the bounds are; \<open>coalesce_batch\<close> returns \<open>True\<close> for it and leaves the
  world as it was, so neither the coalesce nor the delete was called; and so does the
  task of a partition that has this one batch.
\<close>

theorem single_record_group:
  "batch_partition max_size max_count [r] = [[r]] \<and>
   coalesce_batch S bucket [r] w = (Inr True, w) \<and>
   coalesce_partition S bucket (batch_partition max_size max_count [r]) w = (Inr [True], w)"
proof -
  have one: "batch_partition max_size max_count [r] = [[r]]"
    by (simp add: batch_partition_def batch_finish_def batch_loop_def batch_step_def
        batch_init_def Let_def)
  have ok: "coalesce_batch S bucket [r] w = (Inr True, w)"
    by (simp add: coalesce_batch_def coalesce_batch_body_def)
  show ?thesis
    by (simp add: one ok)
qed

text \<open>
  C3: the batches of a group concatenated in order are the records of the group, each
  once and in the order of the group, and no batch is empty. The batches filed under a
  topic and a partition are those of the group filed under that topic and partition and
  of no other, and every group has its batches filed so. In the batches made from a
  listing every record of a batch has the topic and the partition the batch is filed
  under.
\<close>

theorem batches_partition_group:
  "concat (batch_partition max_size max_count g) = g \<and>
   [] \<notin> set (batch_partition max_size max_count g) \<and>
   lookup2 (batched_object_summaries max_size max_count grouped) t p
     = map_option (batch_partition max_size max_count) (lookup2 grouped t p) \<and>
   ((t, pbs) \<in> set (batched_object_summaries max_size max_count grouped) \<and> (p, bs) \<in> set pbs \<longrightarrow>
      (\<exists>ps. (t, ps) \<in> set grouped \<and> (p, concat bs) \<in> set ps) \<and>
      bs = batch_partition max_size max_count (concat bs) \<and> [] \<notin> set bs) \<and>
   ((t, group_parts) \<in> set grouped \<and> (p, grp) \<in> set group_parts \<longrightarrow>
      (\<exists>batch_parts. (t, batch_parts) \<in> set (batched_object_summaries max_size max_count grouped) \<and>
              (p, batch_partition max_size max_count grp) \<in> set batch_parts)) \<and>
   ((t, listed_parts) \<in> set (batched_object_summaries max_size max_count
                         (grouped_object_summaries summaries)) \<and> (p, listed_batches) \<in> set listed_parts \<longrightarrow>
      list_all (list_all (in_group t p)) listed_batches)"
proof -
  have origin: "(\<exists>ps. (t, ps) \<in> set grouped \<and> (p, concat bs) \<in> set ps) \<and>
              bs = batch_partition max_size max_count (concat bs) \<and> [] \<notin> set bs"
    if "(t, pbs) \<in> set (batched_object_summaries max_size max_count grouped)"
      and "(p, bs) \<in> set pbs"
  proof -
    from batched_entry [OF that] obtain ps g0
      where "(t, ps) \<in> set grouped" "(p, g0) \<in> set ps"
        and bs: "bs = batch_partition max_size max_count g0"
      by blast
    moreover from bs have "concat bs = g0"
      by (simp add: batch_partition_concat)
    moreover from bs have "[] \<notin> set bs"
      by (simp add: batch_partition_nonempty)
    ultimately show ?thesis
      by auto
  qed
  have spans: "list_all (list_all (in_group t p)) listed_batches"
    if "(t, listed_parts) \<in> set (batched_object_summaries max_size max_count
                             (grouped_object_summaries summaries))"
      and "(p, listed_batches) \<in> set listed_parts"
    using batch_entry_members [OF that] by (auto simp: list_all_iff)
  show ?thesis
    using origin spans batched_entry_of_group [of t group_parts grouped p grp max_size max_count]
    by (simp add: batched_lookup batch_partition_concat batch_partition_nonempty)
qed

text \<open>
  A listing of four data files of topic \<open>t\<close>, three of them of partition 1, and one
  other file; the group of partition 1, in which the two records of start offset 20
  are in the order of the listing; and the groups of the listing.
\<close>

definition example_listing :: "summary list" where
  "example_listing =
     [\<lparr>Key = ''data/t_1_20-29.jsonl.gz'', Size = 5\<rparr>,
      \<lparr>Key = ''data/t_0_0-9.jsonl.gz'', Size = 4\<rparr>,
      \<lparr>Key = ''data/t_1_10-19.jsonl.gz'', Size = 7\<rparr>,
      \<lparr>Key = ''data/t_1_20-25.jsonl.gz'', Size = 3\<rparr>,
      \<lparr>Key = ''data/readme.txt'', Size = 1\<rparr>]"

definition example_record :: "string \<Rightarrow> int \<Rightarrow> int \<Rightarrow> int \<Rightarrow> int \<Rightarrow> stream_record" where
  "example_record k n s e sz = \<lparr>object_key = k, topic = ''t'', partition_no = n,
                                start_offset = s, end_offset = e, obj_size = sz\<rparr>"

definition example_group :: "stream_record list" where
  "example_group =
     [example_record ''data/t_1_10-19.jsonl.gz'' 1 10 19 7,
      example_record ''data/t_1_20-29.jsonl.gz'' 1 20 29 5,
      example_record ''data/t_1_20-25.jsonl.gz'' 1 20 25 3]"

definition example_grouped :: "stream_record list by_topic" where
  "example_grouped =
     [(''t'', [(1, example_group), (0, [example_record ''data/t_0_0-9.jsonl.gz'' 0 0 9 4])])]"

definition example_batched :: "stream_record list list by_topic" where
  "example_batched =
     [(''t'', [(1, [take 2 example_group, drop 2 example_group]),
               (0, [[example_record ''data/t_0_0-9.jsonl.gz'' 0 0 9 4]])])]"

lemma example_grouped_eq: "grouped_object_summaries example_listing = example_grouped"
  by code_simp

lemma example_batched_eq:
  "batched_object_summaries 10 10 (grouped_object_summaries example_listing) = example_batched"
  by code_simp

theorem batches_partition_group_witness:
  "(''t'', snd (hd example_batched))
     \<in> set (batched_object_summaries 10 10 (grouped_object_summaries example_listing)) \<and>
   (1, [take 2 example_group, drop 2 example_group]) \<in> set (snd (hd example_batched)) \<and>
   (\<exists>ps. (''t'', ps) \<in> set (grouped_object_summaries example_listing) \<and>
         (1, concat [take 2 example_group, drop 2 example_group]) \<in> set ps) \<and>
   list_all (list_all (in_group ''t'' 1)) [take 2 example_group, drop 2 example_group]"
proof -
  have a: "(''t'', snd (hd example_batched))
             \<in> set (batched_object_summaries 10 10 (grouped_object_summaries example_listing))"
    by (simp add: example_batched_eq) (simp add: example_batched_def)
  have b: "(1, [take 2 example_group, drop 2 example_group]) \<in> set (snd (hd example_batched))"
    by (simp add: example_batched_def)
  note c = batches_partition_group
             [where max_size = 10 and max_count = 10
                and grouped = "grouped_object_summaries example_listing"
                and summaries = example_listing and t = "''t''" and p = 1
                and pbs = "snd (hd example_batched)" and listed_parts = "snd (hd example_batched)"
                and bs = "[take 2 example_group, drop 2 example_group]"
                and listed_batches = "[take 2 example_group, drop 2 example_group]"]
  from c a b
  have "\<exists>ps. (''t'', ps) \<in> set (grouped_object_summaries example_listing) \<and>
             (1, concat [take 2 example_group, drop 2 example_group]) \<in> set ps"
    by blast
  moreover from c a b
  have "list_all (list_all (in_group ''t'' 1)) [take 2 example_group, drop 2 example_group]"
    by blast
  ultimately show ?thesis
    using a b by blast
qed

section \<open>Claims about the grouper\<close>

text \<open>
  C5: in every group of a listing the start offsets do not decrease; the records of the
  group with a given start offset are, in this order, the records of the listing with
  that topic, partition and start offset, so records with equal start offsets keep the
  order of the listing; and every record of the group has the topic and the partition
  the group is filed under.
\<close>

theorem groups_sorted_stable:
  assumes "(t, ps) \<in> set (grouped_object_summaries summaries)" and "(p, g) \<in> set ps"
  shows "sorted (map start_offset g) \<and>
         filter (\<lambda>r. start_offset r = k) g
           = filter (\<lambda>r. start_offset r = k) (filter (in_group t p) (parsed_records summaries)) \<and>
         list_all (\<lambda>r. topic r = t \<and> partition_no r = p) g"
proof -
  from group_entry_lookup [OF assms]
  have g: "g = sort_key start_offset (filter (in_group t p) (parsed_records summaries))"
    by (simp add: grouped_lookup split: if_splits)
  have "sorted (map start_offset g)"
    unfolding g by (rule sorted_sort_key)
  moreover have "filter (\<lambda>r. start_offset r = k) g
           = filter (\<lambda>r. start_offset r = k) (filter (in_group t p) (parsed_records summaries))"
    unfolding g by (rule sort_key_stable)
  moreover have "list_all (\<lambda>r. topic r = t \<and> partition_no r = p) g"
    unfolding g by (simp add: list_all_iff in_group_def)
  ultimately show ?thesis by simp
qed

theorem groups_sorted_stable_witness:
  "(''t'', snd (hd example_grouped)) \<in> set (grouped_object_summaries example_listing) \<and>
   (1, example_group) \<in> set (snd (hd example_grouped)) \<and>
   sorted (map start_offset example_group) \<and>
   filter (\<lambda>r. start_offset r = 20) example_group
     = filter (\<lambda>r. start_offset r = 20)
         (filter (in_group ''t'' 1) (parsed_records example_listing)) \<and>
   filter (\<lambda>r. start_offset r = 20) example_group
     = [example_record ''data/t_1_20-29.jsonl.gz'' 1 20 29 5,
        example_record ''data/t_1_20-25.jsonl.gz'' 1 20 25 3] \<and>
   list_all (\<lambda>r. topic r = ''t'' \<and> partition_no r = 1) example_group"
proof -
  have a: "(''t'', snd (hd example_grouped)) \<in> set (grouped_object_summaries example_listing)"
    by (simp add: example_grouped_eq) (simp add: example_grouped_def)
  have b: "(1, example_group) \<in> set (snd (hd example_grouped))"
    by (simp add: example_grouped_def)
  have same: "filter (\<lambda>r. start_offset r = 20) example_group
     = [example_record ''data/t_1_20-29.jsonl.gz'' 1 20 29 5,
        example_record ''data/t_1_20-25.jsonl.gz'' 1 20 25 3]"
    by (simp add: example_group_def example_record_def)
  from groups_sorted_stable [OF a b, of 20] a b same show ?thesis by blast
qed

lemma size_nonneg_step:
  "0 \<le> current_batch_size st \<Longrightarrow> 0 \<le> obj_size x
     \<Longrightarrow> 0 \<le> current_batch_size (batch_step ms mc st x)"
  by (simp add: batch_step_def Let_def)

lemma size_nonneg_loop:
  "0 \<le> current_batch_size st \<Longrightarrow> list_all (\<lambda>x. 0 \<le> obj_size x) xs
     \<Longrightarrow> 0 \<le> current_batch_size (batch_loop ms mc st xs)"
  by (induction xs arbitrary: st)
     (simp_all add: batch_loop_Nil batch_loop_Cons size_nonneg_step)

lemma large_record_step:
  assumes "ms \<le> obj_size r" and "0 \<le> current_batch_size st"
  shows "batch_step ms mc st r
           = \<lparr>closed_batches = closed_batches st @ [current_batch st @ [r]],
              current_batch = [], current_batch_size = 0, current_batch_count = 0\<rparr>"
  using assms by (simp add: batch_step_def Let_def)

lemma closed_batches_step:
  "set (closed_batches st) \<subseteq> set (closed_batches (batch_step ms mc st x))"
  by (auto simp: batch_step_def Let_def)

lemma closed_batches_loop:
  "set (closed_batches st) \<subseteq> set (closed_batches (batch_loop ms mc st xs))"
proof (induction xs arbitrary: st)
  case Nil
  then show ?case by (simp add: batch_loop_Nil)
next
  case (Cons x xs)
  from closed_batches_step [of st ms mc x] Cons.IH [of "batch_step ms mc st x"]
  show ?case unfolding batch_loop_Cons by (rule subset_trans)
qed

lemma closed_batches_finish: "set (closed_batches st) \<subseteq> set (batch_finish st)"
  by (auto simp: batch_finish_def)

text \<open>
  C10: a record whose size is at least \<open>max_size\<close> closes the batch it is added to, the
  sizes of the records before it in the group being non-negative, as the sizes of a
  listing are: the running batch with the record added becomes the next closed batch and
  a batch of the group, and the running batch is empty after it. When the running batch
  was empty, the record is a batch by itself; \<open>coalesce_batch\<close> returns \<open>True\<close> for
  that batch and calls neither the coalesce nor the delete.
\<close>

theorem large_record_closes_batch:
  assumes "max_size \<le> obj_size r" and "list_all (\<lambda>x. 0 \<le> obj_size x) before"
  shows "closed_batches (batch_loop max_size max_count batch_init (before @ [r]))
           = closed_batches (batch_loop max_size max_count batch_init before)
             @ [current_batch (batch_loop max_size max_count batch_init before) @ [r]] \<and>
         current_batch (batch_loop max_size max_count batch_init (before @ [r])) = [] \<and>
         current_batch (batch_loop max_size max_count batch_init before) @ [r]
           \<in> set (batch_partition max_size max_count (before @ r # after)) \<and>
         (current_batch (batch_loop max_size max_count batch_init before) = [] \<longrightarrow>
            [r] \<in> set (batch_partition max_size max_count (before @ r # after))) \<and>
         coalesce_batch S bucket [r] w = (Inr True, w)"
proof -
  let ?st = "batch_loop max_size max_count batch_init before"
  let ?b = "current_batch ?st @ [r]"
  have "0 \<le> current_batch_size ?st"
    by (rule size_nonneg_loop [OF _ assms(2)]) (simp add: batch_init_def)
  from large_record_step [OF assms(1) this]
  have step: "batch_loop max_size max_count batch_init (before @ [r])
                = \<lparr>closed_batches = closed_batches ?st @ [?b],
                   current_batch = [], current_batch_size = 0, current_batch_count = 0\<rparr>"
    by (simp add: batch_loop_append batch_loop_Cons batch_loop_Nil)
  then have "?b \<in> set (closed_batches (batch_loop max_size max_count batch_init (before @ [r])))"
    by simp
  with closed_batches_loop
         [of "batch_loop max_size max_count batch_init (before @ [r])" max_size max_count after]
  have "?b \<in> set (closed_batches (batch_loop max_size max_count batch_init ((before @ [r]) @ after)))"
    by (auto simp only: batch_loop_append)
  with closed_batches_finish
  have member: "?b \<in> set (batch_partition max_size max_count (before @ r # after))"
    by (auto simp: batch_partition_def)
  have ok: "coalesce_batch S bucket [r] w = (Inr True, w)"
    by (simp add: coalesce_batch_def coalesce_batch_body_def)
  from member have "[r] \<in> set (batch_partition max_size max_count (before @ r # after))"
    if "current_batch ?st = []"
    using that by simp
  with step member ok show ?thesis
    by simp
qed

text \<open>
  A group of sizes 10, 12 and 1 with \<open>max_size = 10\<close>: the first record closes a batch,
  the second arrives at an empty running batch and is a batch by itself.
\<close>

theorem large_record_closes_batch_witness:
  "(10::int) \<le> obj_size (sample 2 12) \<and>
   list_all (\<lambda>x. 0 \<le> obj_size x) [sample 1 10] \<and>
   current_batch (batch_loop 10 5 batch_init [sample 1 10]) = [] \<and>
   [sample 2 12] \<in> set (batch_partition 10 5 ([sample 1 10] @ sample 2 12 # [sample 3 1])) \<and>
   batch_partition 10 5 ([sample 1 10] @ sample 2 12 # [sample 3 1])
     = [[sample 1 10], [sample 2 12], [sample 3 1]]"
proof -
  have big: "(10::int) \<le> obj_size (sample 2 12)"
    by (simp add: sample_def)
  have nonneg: "list_all (\<lambda>x. 0 \<le> obj_size x) [sample 1 10]"
    by (simp add: sample_def)
  have empty: "current_batch (batch_loop 10 5 batch_init [sample 1 10]) = []"
    by (simp add: batch_loop_def batch_step_def batch_init_def Let_def sample_def)
  have all: "batch_partition 10 5 ([sample 1 10] @ sample 2 12 # [sample 3 1])
               = [[sample 1 10], [sample 2 12], [sample 3 1]]"
    by (simp add: batch_partition_def batch_finish_def batch_loop_def batch_step_def
          batch_init_def Let_def sample_def)
  from large_record_closes_batch [OF big nonneg, of 5 "[sample 3 1]"] empty
  have "[sample 2 12] \<in> set (batch_partition 10 5 ([sample 1 10] @ sample 2 12 # [sample 3 1]))"
    by blast
  with big nonneg empty all show ?thesis
    by blast
qed

section \<open>Claims about the key parser\<close>

text \<open>
  C4: a key that ends with a name of the grammar (after any prefix, and with or without
  the one newline that \<^verbatim>\<open>$\<close> lets pass) gives a record whose topic is the stream id of
  the name, whose partition, start offset and end offset are the numbers that the three
  digit strings of the name denote, and whose size is the size of the listing entry.
\<close>

theorem key_parser_round_trip:
  assumes "grammar_fields (t, p, s, e)" and "line_end rest"
  shows "summary_record \<lparr>Key = pre @ grammar_name (t, p, s, e) @ rest, Size = sz\<rparr>
           = Some \<lparr>object_key = pre @ grammar_name (t, p, s, e) @ rest, topic = t,
                   partition_no = int_of_digits p, start_offset = int_of_digits s,
                   end_offset = int_of_digits e, obj_size = sz\<rparr>"
proof -
  have "findall (pre @ grammar_name (t, p, s, e) @ rest) = [(t, p, s, e)]"
    by (rule findall_grammar_name [OF assms])
  then show ?thesis
    by (simp add: summary_record_def Let_def)
qed

theorem key_parser_round_trip_witness:
  "grammar_fields (''t'', ''1'', ''20'', ''29'') \<and> line_end [] \<and>
   summary_record \<lparr>Key = ''data/t_1_20-29.jsonl.gz'', Size = 5\<rparr>
     = Some \<lparr>object_key = ''data/t_1_20-29.jsonl.gz'', topic = ''t'', partition_no = 1,
             start_offset = 20, end_offset = 29, obj_size = 5\<rparr>"
proof -
  have f: "grammar_fields (''t'', ''1'', ''20'', ''29'')"
    by (simp add: grammar_fields_def is_topic_char_def is_word_def is_alnum_def is_digit_def)
  have l: "line_end []"
    by (simp add: line_end_def)
  from key_parser_round_trip [OF f l, of "''data''" 5] f l show ?thesis
    by (simp add: grammar_name_def int_of_digits_def digit_value_def)
qed




section \<open>Claims about the orchestrator\<close>





















text \<open>
  C8 fails on the code: the call of the grouper in \<open>main\<close> raises \<open>TypeError\<close> with
  a partition filter and without one, so that no partition is processed; and the
  grouper by itself has no filter: it keeps the groups of partition 0 and of
  partition 1 of the listing.
\<close>

theorem partition_filter_call_raises:
  "main_grouped example_listing (Some 1) = Inl TypeError \<and>
   main_grouped example_listing None = Inl TypeError \<and>
   map fst (concat (map snd (grouped_object_summaries example_listing))) = [1, 0]"
proof -
  have "map fst (concat (map snd (grouped_object_summaries example_listing))) = [1, 0]"
    by code_simp
  then show ?thesis
    by (simp add: main_grouped_def call_grouped_object_summaries_def)
qed

section \<open>Claims about the run result\<close>

text \<open>
  C1: the run result is the conjunction of the outcomes of all batches of all topics
  and partitions: it is true exactly when there is no batch or every batch succeeded;
  and the exit status is 0 exactly when the run result is true, and 2 otherwise.
\<close>

theorem run_result_conjunction:
  "successful_result results
     = (concat (concat results) = [] \<or> list_all (\<lambda>ok. ok) (concat (concat results))) \<and>
   (exit_status results = 0) = successful_result results \<and>
   (exit_status results = 2) = (\<not> successful_result results)"
proof -
  have "successful_result results = list_all (\<lambda>ok. ok) (concat (concat results))"
    by (auto simp: successful_result_def list_all_iff)
  moreover have "list_all (\<lambda>ok. ok) (concat (concat results))"
    if "concat (concat results) = []"
    unfolding that by simp
  ultimately show ?thesis
    by (auto simp: exit_status_def)
qed

end
